theory Spec2Isabelle
  imports Main "HOL-Library.Word"
begin

unbundle bit_operations_syntax

section \<open>The counting scanner of \<^verbatim>\<open>pire/extra/count.h\<close>\<close>

subsection \<open>Types and constants inherited from \<^verbatim>\<open>LoadedScanner\<close>\<close>

text \<open>
  Modelled from the spec: the integer types of \<^verbatim>\<open>scanners/loaded.h\<close>, which
  \<^verbatim>\<open>count.h\<close> includes. A transition entry holds a signed 32-bit row offset and an
  unsigned 32-bit action word whose low half carries the increment bits and whose high
  half carries the reset bits; a letter is a byte, an input symbol a wider integer (the
  boundary marks lie above 255), a state the address of its row; \<^verbatim>\<open>size_t\<close> is
  the 64-bit type of an LP64 platform.
\<close>

type_synonym ui32 = "32 word"
type_synonym size_t = "64 word"
type_synonym Action = "32 word"
type_synonym Char = "16 word"
type_synonym Letter = "8 word"
type_synonym InternalState = "64 word"

text \<open>Modelled from the spec: the constant \<^verbatim>\<open>LoadedScanner::MAX_RE_COUNT\<close>
  (``a small compile-time constant, typically 16'').\<close>

definition MAX_RE_COUNT :: nat where
  "MAX_RE_COUNT = 16"

text \<open>Modelled from the spec: the masks \<^verbatim>\<open>LoadedScanner::IncrementMask\<close> and
  \<^verbatim>\<open>LoadedScanner::ResetMask\<close> (``the low half holds increment bits, one per
  tracked pattern; the high half holds reset bits'').\<close>

definition IncrementMask :: Action where
  "IncrementMask = push_bit MAX_RE_COUNT 1 - 1"

definition ResetMask :: Action where
  "ResetMask = push_bit MAX_RE_COUNT IncrementMask"

text \<open>Modelled from the spec: the transition entry \<^verbatim>\<open>LoadedScanner::Transition\<close>
  (``entries holding (i32 row\_delta, u32 action)'').\<close>

record Transition =
  shift :: ui32
  action :: Action

text \<open>Modelled from the spec: \<^verbatim>\<open>LoadedScanner::SignExtend\<close>, which widens the
  signed 32-bit row offset to the width of a state address.\<close>

definition SignExtend :: "ui32 \<Rightarrow> size_t" where
  "SignExtend x = scast x"

text \<open>Modelled from the spec: the library's \<^verbatim>\<open>ymax\<close> (``max'').\<close>

definition ymax :: "ui32 \<Rightarrow> ui32 \<Rightarrow> ui32" where
  "ymax a b = (if a < b then b else a)"

text \<open>
  Modelled from the spec: the part of a compiled \<^verbatim>\<open>LoadedScanner\<close> that
  \<^verbatim>\<open>count.h\<close> reads, namely the initial state
  \<^verbatim>\<open>m.initial\<close>, the letter table \<^verbatim>\<open>m_letters\<close>, and the transition rows.
  A state is the address of its row, so the rows are a function of the address and the
  letter (the \<^verbatim>\<open>reinterpret_cast<const Transition*>(s.m_state)[c]\<close> of the source).
\<close>

record Scanner =
  initial :: InternalState
  m_letters :: "Char \<Rightarrow> Letter"
  row :: "InternalState \<Rightarrow> Char \<Rightarrow> Transition"

subsection \<open>The enumeration of \<^verbatim>\<open>CountingScanner\<close>\<close>

definition IncrementAction :: Action where "IncrementAction = 1"
definition ResetAction :: Action where "ResetAction = 2"
definition FinalFlag :: Action where "FinalFlag = 0"
definition DeadFlag :: Action where "DeadFlag = 1"
definition Matched :: Action where "Matched = 2"

definition OPTIMAL_RE_COUNT :: nat where
  "OPTIMAL_RE_COUNT = 4"

subsection \<open>\<^verbatim>\<open>CountingScanner::State\<close>\<close>

text \<open>The two arrays have \<^verbatim>\<open>MAX_RE_COUNT\<close> entries each; \<open>wf_State\<close> records
  that length, which every C++ object of the class has.\<close>

record State =
  m_state :: InternalState
  m_current :: "ui32 list"
  m_total :: "ui32 list"
  m_updatedMask :: size_t

definition wf_State :: "State \<Rightarrow> bool" where
  "wf_State s = (length (m_current s) = MAX_RE_COUNT \<and> length (m_total s) = MAX_RE_COUNT)"

text \<open>\<^verbatim>\<open>size_t Result(int i) const { return ymax(m_current[i], m_total[i]); }\<close>\<close>

definition Result :: "State \<Rightarrow> nat \<Rightarrow> size_t" where
  "Result s i = ucast (ymax (m_current s ! i) (m_total s ! i))"

subsection \<open>The unrolled per-pattern loops\<close>

text \<open>\<^verbatim>\<open>PerformIncrementer<I>::Do\<close>: the template recursion from \<open>I\<close> down to
  \<open>0\<close>; the instance \<open>I = Suc n\<close> handles index \<open>I - 1 = n\<close>.\<close>

fun PerformIncrementer :: "nat \<Rightarrow> State \<Rightarrow> Action \<Rightarrow> State" where
  "PerformIncrementer 0 s msk = s"
| "PerformIncrementer (Suc n) s msk =
     PerformIncrementer n
       (if msk AND push_bit n 1 \<noteq> 0
        then s\<lparr>m_current := (m_current s)[n := m_current s ! n + 1]\<rparr>
        else s)
       msk"

text \<open>\<^verbatim>\<open>PerformReseter<I>::Do\<close>.\<close>

fun PerformReseter :: "nat \<Rightarrow> State \<Rightarrow> Action \<Rightarrow> State" where
  "PerformReseter 0 s msk = s"
| "PerformReseter (Suc n) s msk =
     PerformReseter n
       (if msk AND push_bit (MAX_RE_COUNT + n) 1 \<noteq> 0 \<and> m_current s ! n \<noteq> 0
        then s\<lparr>m_total := (m_total s)[n := ymax (m_total s ! n) (m_current s ! n)],
               m_current := (m_current s)[n := 0]\<rparr>
        else s)
       msk"

subsection \<open>The operations of \<^verbatim>\<open>CountingScanner\<close>\<close>

text \<open>\<^verbatim>\<open>Initialize\<close> overwrites all four fields of its argument.\<close>

definition Initialize :: "Scanner \<Rightarrow> State" where
  "Initialize sc =
     \<lparr>m_state = initial sc,
      m_current = replicate MAX_RE_COUNT 0,
      m_total = replicate MAX_RE_COUNT 0,
      m_updatedMask = 0\<rparr>"

definition PerformIncrement :: "nat \<Rightarrow> State \<Rightarrow> Action \<Rightarrow> State" where
  "PerformIncrement n s msk =
     (if msk \<noteq> 0
      then let s1 = PerformIncrementer n s msk
           in s1\<lparr>m_updatedMask := m_updatedMask s1 OR push_bit MAX_RE_COUNT (ucast msk)\<rparr>
      else s)"

definition PerformReset :: "nat \<Rightarrow> State \<Rightarrow> Action \<Rightarrow> State" where
  "PerformReset n s msk0 =
     (let msk = msk0 AND ucast (m_updatedMask s)
      in if msk \<noteq> 0
         then let s1 = PerformReseter n s msk
              in s1\<lparr>m_updatedMask := m_updatedMask s1 AND ucast (NOT msk)\<rparr>
         else s)"

definition TakeActionImpl :: "nat \<Rightarrow> State \<Rightarrow> Action \<Rightarrow> State" where
  "TakeActionImpl n s a =
     (let s1 = (if a AND IncrementMask \<noteq> 0 then PerformIncrement n s a else s)
      in if a AND ResetMask \<noteq> 0 then PerformReset n s1 a else s1)"

definition TakeAction :: "State \<Rightarrow> Action \<Rightarrow> State" where
  "TakeAction s a = TakeActionImpl OPTIMAL_RE_COUNT s a"

definition CanStop :: "Scanner \<Rightarrow> State \<Rightarrow> bool" where
  "CanStop sc s = False"

definition Translate :: "Scanner \<Rightarrow> Char \<Rightarrow> Char" where
  "Translate sc ch = ucast (m_letters sc ch)"

definition NextTranslated :: "Scanner \<Rightarrow> State \<Rightarrow> Char \<Rightarrow> State \<times> Action" where
  "NextTranslated sc s c =
     (let x = row sc (m_state s) c
      in (s\<lparr>m_state := m_state s + SignExtend (shift x)\<rparr>, action x))"

definition Next :: "Scanner \<Rightarrow> State \<Rightarrow> Char \<Rightarrow> State \<times> Action" where
  "Next sc s c = NextTranslated sc s (Translate sc c)"

definition Final :: "Scanner \<Rightarrow> State \<Rightarrow> bool" where
  "Final sc s = False"

definition Dead :: "Scanner \<Rightarrow> State \<Rightarrow> bool" where
  "Dead sc s = False"

text \<open>Modelled from the spec: the number of patterns a scanner tracks when it is built.
  \<^verbatim>\<open>RemapAction\<close> is a private helper of that build (friend \<^verbatim>\<open>BuildScanner\<close>,
  constructor \<^verbatim>\<open>CountingScanner(const Fsm& re, const Fsm& sep)\<close>), which ``takes
  (R, S)'': one target pattern, with index 0. Further patterns only come from gluing.\<close>

definition built_patterns :: nat where
  "built_patterns = 1"

text \<open>\<^verbatim>\<open>Action RemapAction(Action action)\<close>.\<close>

definition RemapAction :: "Action \<Rightarrow> Action" where
  "RemapAction a =
     (if a = (Matched OR DeadFlag) then 1
      else if a = DeadFlag then push_bit MAX_RE_COUNT 1
      else 0)"

text \<open>The private \<^verbatim>\<open>void Next(InternalState& s, Char c) const\<close>, which moves a bare
  state address and drops the action.\<close>

definition NextInternal :: "Scanner \<Rightarrow> InternalState \<Rightarrow> Char \<Rightarrow> InternalState" where
  "NextInternal sc s c = s + SignExtend (shift (row sc s (Translate sc c)))"

subsection \<open>The three-argument \<^verbatim>\<open>Next\<close> over a store of \<^verbatim>\<open>State\<close> objects\<close>

text \<open>
  \<^verbatim>\<open>Action Next(const State& current, State& n, Char c) const { n = current; return Next(n, c); }\<close>
  takes both states by reference, so whether the first one is left alone depends on
  whether the two references name the same object. The objects live in a store indexed by
  their addresses; \<open>current\<close> and \<open>n\<close> are the addresses passed.
\<close>

type_synonym Store = "nat \<Rightarrow> State"

definition Next3 :: "Scanner \<Rightarrow> Store \<Rightarrow> nat \<Rightarrow> nat \<Rightarrow> Char \<Rightarrow> Store \<times> Action" where
  "Next3 sc h current n c =
     (let h1 = h(n := h current);
          r = Next sc (h1 n) c
      in (h1(n := fst r), snd r))"

subsection \<open>Runs of a counting scanner\<close>

text \<open>A run starts from \<^verbatim>\<open>Initialize\<close> and applies \<^verbatim>\<open>Next\<close> and
  \<^verbatim>\<open>TakeAction\<close> calls in any order; consuming a byte is a \<^verbatim>\<open>Next\<close> followed by a
  \<^verbatim>\<open>TakeAction\<close> of the action it returned.\<close>

datatype Step = StepNext Char | StepTakeAction Action

fun apply_step :: "Scanner \<Rightarrow> State \<Rightarrow> Step \<Rightarrow> State" where
  "apply_step sc s (StepNext c) = fst (Next sc s c)"
| "apply_step sc s (StepTakeAction a) = TakeAction s a"

definition run_steps :: "Scanner \<Rightarrow> Step list \<Rightarrow> State" where
  "run_steps sc steps = foldl (apply_step sc) (Initialize sc) steps"

fun action_count :: "Step list \<Rightarrow> nat" where
  "action_count [] = 0"
| "action_count (StepNext c # steps) = action_count steps"
| "action_count (StepTakeAction a # steps) = Suc (action_count steps)"

text \<open>The states that occur while a scanner runs: the initial one, those after a
  \<^verbatim>\<open>Next\<close>, and those after each of the two phases of \<^verbatim>\<open>TakeActionImpl\<close>
  (so the state that \<^verbatim>\<open>PerformReset\<close> receives in the middle of a
  \<^verbatim>\<open>TakeAction\<close> is one of them).\<close>

inductive runtime_state :: "Scanner \<Rightarrow> State \<Rightarrow> bool" for sc :: Scanner where
  rs_init: "runtime_state sc (Initialize sc)"
| rs_next: "runtime_state sc s \<Longrightarrow> runtime_state sc (fst (Next sc s c))"
| rs_increment: "runtime_state sc s \<Longrightarrow> a AND IncrementMask \<noteq> 0 \<Longrightarrow>
     runtime_state sc (PerformIncrement OPTIMAL_RE_COUNT s a)"
| rs_reset: "runtime_state sc s \<Longrightarrow> a AND ResetMask \<noteq> 0 \<Longrightarrow>
     runtime_state sc (PerformReset OPTIMAL_RE_COUNT s a)"

subsection \<open>The reference variant without the \<^verbatim>\<open>updatedMask\<close> gate\<close>

text \<open>
  The specification's reading of the two actions: Increment bumps \<open>current[i]\<close>, and
  Reset commits \<open>total[i] := max(total[i], current[i])\<close> and zeroes \<open>current[i]\<close>,
  for every reset bit of the action word, with no look at \<^verbatim>\<open>m_updatedMask\<close> and no
  test of \<open>current[i]\<close>. \<open>Reseter_ungated\<close> is that reset, unrolled like the source's
  loop; \<open>TakeAction_ungated\<close> keeps the source's increments and applies the reset
  bits of all \<open>MAX_RE_COUNT\<close> patterns.
\<close>

fun Reseter_ungated :: "nat \<Rightarrow> State \<Rightarrow> Action \<Rightarrow> State" where
  "Reseter_ungated 0 s a = s"
| "Reseter_ungated (Suc n) s a =
     Reseter_ungated n
       (if bit a (MAX_RE_COUNT + n)
        then s\<lparr>m_total := (m_total s)[n := max (m_total s ! n) (m_current s ! n)],
               m_current := (m_current s)[n := 0]\<rparr>
        else s)
       a"

definition TakeAction_ungated :: "State \<Rightarrow> Action \<Rightarrow> State" where
  "TakeAction_ungated s a =
     Reseter_ungated MAX_RE_COUNT (PerformIncrementer OPTIMAL_RE_COUNT s a) a"

fun apply_step_ungated :: "Scanner \<Rightarrow> State \<Rightarrow> Step \<Rightarrow> State" where
  "apply_step_ungated sc s (StepNext c) = fst (Next sc s c)"
| "apply_step_ungated sc s (StepTakeAction a) = TakeAction_ungated s a"

definition run_steps_ungated :: "Scanner \<Rightarrow> Step list \<Rightarrow> State" where
  "run_steps_ungated sc steps = foldl (apply_step_ungated sc) (Initialize sc) steps"

subsection \<open>A small scanner to evaluate the definitions on\<close>

text \<open>
  Two rows of three letters (other, \<open>a\<close>, \<open>b\<close>), eight bytes per entry: the row at
  4096 is ``outside a run'', the row at 4120 is ``inside a run of \<open>a\<close>''. An \<open>a\<close>
  moves to (or stays at) 4120 with Increment(0); a \<open>b\<close> moves to (or stays at) 4096
  with Reset(0); any other byte stays with no action.
\<close>

definition demo_scanner :: Scanner where
  "demo_scanner =
     \<lparr>initial = 4096,
      m_letters = (\<lambda>ch. if ch = 97 then 1 else if ch = 98 then 2 else 0),
      row = (\<lambda>addr l.
        if l = 1 then \<lparr>shift = (if addr = 4096 then 24 else 0), action = 1\<rparr>
        else if l = 2 then \<lparr>shift = (if addr = 4120 then - 24 else 0), action = 65536\<rparr>
        else \<lparr>shift = 0, action = 0\<rparr>)\<rparr>"

definition demo_store :: Store where
  "demo_store = (\<lambda>p. Initialize demo_scanner)"

subsection \<open>The invariant behind the reset gate\<close>

text \<open>
  \<^verbatim>\<open>PerformReset\<close> looks at \<^verbatim>\<open>m_updatedMask\<close> before it looks at the counters.
  \<open>gate_sound\<close> says that this loses nothing: an entry of \<open>current[]\<close> that is not
  zero has its bit \<open>MAX_RE_COUNT + i\<close> set in the mask, and the entries that
  \<^verbatim>\<open>TakeAction\<close> never visits are zero.
\<close>

definition gate_sound :: "State \<Rightarrow> bool" where
  "gate_sound s =
     (\<forall>i<MAX_RE_COUNT.
        (m_current s ! i \<noteq> 0 \<longrightarrow> bit (m_updatedMask s) (MAX_RE_COUNT + i))
      \<and> (OPTIMAL_RE_COUNT \<le> i \<longrightarrow> m_current s ! i = 0))"

subsection \<open>Gluing two scanners\<close>

text \<open>
  \<^verbatim>\<open>count.h\<close> only declares
  \<^verbatim>\<open>static CountingScanner Glue(const CountingScanner& a, const CountingScanner& b, size_t maxSize = 0)\<close>;
  its body is in the library's glue sources, outside \<^verbatim>\<open>count.h\<close>. The definitions
  of this subsection follow the specification's description of the operation.
\<close>

type_synonym PState = "InternalState \<times> InternalState"

text \<open>Modelled from the spec: the input symbols, which the glue sources enumerate (``the
  256-symbol input alphabet'' followed by the two boundary marks).\<close>

definition alphabet :: "Char list" where
  "alphabet = map of_nat [0..<258]"

text \<open>Modelled from the spec: the merged letter table of \<^verbatim>\<open>Glue\<close> (``letter tables
  are merged by refining their partitions to the coarsest common refinement''). Two
  symbols are in one merged class when both scanners translate them alike;
  \<open>class_reps\<close> keeps the first symbol of every class.\<close>

fun class_reps :: "(Char \<Rightarrow> 'k) \<Rightarrow> Char list \<Rightarrow> Char list" where
  "class_reps key [] = []"
| "class_reps key (c # cs) = c # class_reps key (filter (\<lambda>d. key d \<noteq> key c) cs)"

definition glue_letters :: "Scanner \<Rightarrow> Scanner \<Rightarrow> Char list" where
  "glue_letters a b = class_reps (\<lambda>c. (Translate a c, Translate b c)) alphabet"

text \<open>Modelled from the spec: the transitions of the product (``for each (s1, s2) and each
  class c of the merged alphabet, compute (next1, next2)''), each component moved by the
  source's \<^verbatim>\<open>Next(InternalState&, Char)\<close>.\<close>

definition glue_succs :: "Scanner \<Rightarrow> Scanner \<Rightarrow> PState \<Rightarrow> PState list" where
  "glue_succs a b p =
     map (\<lambda>c. (NextInternal a (fst p) c, NextInternal b (snd p) c)) (glue_letters a b)"

text \<open>Modelled from the spec: the worklist of \<^verbatim>\<open>Glue\<close> (``worklist over reachable
  product states starting from (init1, init2) ... assign a new product state ID on first
  encounter ... stop with an empty result if the product state count exceeds maxStates
  (0 meaning no limit)''). \<open>seen\<close> lists the product states in the order of their IDs.
  With no limit the loop need not end on an arbitrary table, so it is a partial function:
  \<open>None\<close> is a loop that never returns.\<close>

datatype 'a Explored = TooLarge | Explored "'a list"

partial_function (option) glue_loop ::
  "nat \<Rightarrow> ('a \<Rightarrow> 'a list) \<Rightarrow> 'a list \<Rightarrow> 'a list \<Rightarrow> 'a Explored option" where
  "glue_loop maxSize succs todo seen =
     (case todo of
        [] \<Rightarrow> Some (Explored seen)
      | p # rest \<Rightarrow>
          (let new = remdups (filter (\<lambda>q. q \<notin> set seen) (succs p));
               seen' = seen @ new
           in if maxSize \<noteq> 0 \<and> maxSize < length seen' then Some TooLarge
              else glue_loop maxSize succs (rest @ new) seen'))"

declare glue_loop.simps [code]

fun index_of :: "'a list \<Rightarrow> 'a \<Rightarrow> nat" where
  "index_of [] x = 0"
| "index_of (y # ys) x = (if x = y then 0 else Suc (index_of ys x))"

text \<open>Modelled from the spec: the scanner that \<^verbatim>\<open>Glue\<close> returns, as its product
  states, its merged letters and its transitions between state IDs; and the
  \<^verbatim>\<open>Empty()\<close> test of the caller, true of the scanner with no states (``an in-band
  sentinel conflates "no states" with "glue exceeded budget"'').\<close>

record GluedScanner =
  g_states :: "PState list"
  g_letters :: "Char list"
  g_next :: "(nat \<times> Char \<times> nat) list"

definition Empty :: "GluedScanner \<Rightarrow> bool" where
  "Empty g = (g_states g = [])"

definition empty_scanner :: GluedScanner where
  "empty_scanner = \<lparr>g_states = [], g_letters = [], g_next = []\<rparr>"

definition product_scanner :: "Scanner \<Rightarrow> Scanner \<Rightarrow> PState list \<Rightarrow> GluedScanner" where
  "product_scanner a b sts =
     \<lparr>g_states = sts,
      g_letters = glue_letters a b,
      g_next = concat (map (\<lambda>p. map (\<lambda>c.
          (index_of sts p, c, index_of sts (NextInternal a (fst p) c, NextInternal b (snd p) c)))
          (glue_letters a b)) sts)\<rparr>"

text \<open>Modelled from the spec: \<^verbatim>\<open>Glue\<close> itself (``Glue failures (product too large):
  returns an "empty" scanner sentinel; caller decides fallback''). The result is a scanner
  in every case in which the loop returns; there is no error value.\<close>

definition Glue :: "Scanner \<Rightarrow> Scanner \<Rightarrow> nat \<Rightarrow> GluedScanner option" where
  "Glue a b maxSize =
     (case glue_loop maxSize (glue_succs a b) [(initial a, initial b)] [(initial a, initial b)] of
        None \<Rightarrow> None
      | Some TooLarge \<Rightarrow> Some empty_scanner
      | Some (Explored sts) \<Rightarrow> Some (product_scanner a b sts))"

text \<open>The product states that can be reached from the pair of initial states: what the
  product construction has to number.\<close>

definition product_reachable :: "Scanner \<Rightarrow> Scanner \<Rightarrow> PState set" where
  "product_reachable a b =
     {q. ((initial a, initial b), q) \<in> {(p, q). q \<in> set (glue_succs a b p)}\<^sup>*}"

section \<open>Properties\<close>

subsection \<open>What the unrolled loops do to each array entry\<close>

lemma ymax_max: "ymax a b = max a b"
  by (auto simp: ymax_def max_def)

lemma test_bit_iff: "(msk AND 2 ^ n \<noteq> 0) = bit msk n" for msk :: Action
  by (simp add: bit_iff_and_push_bit_not_eq_0 push_bit_of_1)

lemma test_bit_iff': "(msk AND 2 ^ n = 0) = (\<not> bit msk n)" for msk :: Action
  using test_bit_iff [of msk n] by blast

lemma PerformIncrementer_frame [simp]:
  "m_state (PerformIncrementer n s msk) = m_state s"
  "m_total (PerformIncrementer n s msk) = m_total s"
  "m_updatedMask (PerformIncrementer n s msk) = m_updatedMask s"
  "length (m_current (PerformIncrementer n s msk)) = length (m_current s)"
  by (induction n arbitrary: s; simp)+

lemma PerformIncrementer_nth:
  "i < length (m_current s) \<Longrightarrow>
   m_current (PerformIncrementer n s msk) ! i =
     (if i < n \<and> bit msk i then m_current s ! i + 1 else m_current s ! i)"
proof (induction n arbitrary: s)
  case 0
  then show ?case by simp
next
  case (Suc n)
  then show ?case
    by (auto simp: test_bit_iff test_bit_iff' nth_list_update less_Suc_eq)
qed

lemma PerformReseter_frame [simp]:
  "m_state (PerformReseter n s msk) = m_state s"
  "m_updatedMask (PerformReseter n s msk) = m_updatedMask s"
  "length (m_current (PerformReseter n s msk)) = length (m_current s)"
  "length (m_total (PerformReseter n s msk)) = length (m_total s)"
  by (induction n arbitrary: s; simp)+

lemma PerformReseter_current_nth:
  "i < length (m_current s) \<Longrightarrow>
   m_current (PerformReseter n s msk) ! i =
     (if i < n \<and> bit msk (MAX_RE_COUNT + i) then 0 else m_current s ! i)"
proof (induction n arbitrary: s)
  case 0
  then show ?case by simp
next
  case (Suc n)
  then show ?case
    by (auto simp: test_bit_iff test_bit_iff' nth_list_update less_Suc_eq)
qed

lemma PerformReseter_total_nth:
  "i < length (m_total s) \<Longrightarrow>
   m_total (PerformReseter n s msk) ! i =
     (if i < n \<and> bit msk (MAX_RE_COUNT + i) \<and> m_current s ! i \<noteq> 0
      then ymax (m_total s ! i) (m_current s ! i) else m_total s ! i)"
proof (induction n arbitrary: s)
  case 0
  then show ?case by simp
next
  case (Suc n)
  show ?case
  proof (cases "i = n")
    case True
    with Suc show ?thesis
      by (simp add: test_bit_iff test_bit_iff')
  next
    case False
    with Suc show ?thesis
      by (auto simp: test_bit_iff test_bit_iff' less_Suc_eq)
  qed
qed


lemma PerformIncrement_frame [simp]:
  "m_state (PerformIncrement n s msk) = m_state s"
  "m_total (PerformIncrement n s msk) = m_total s"
  "length (m_current (PerformIncrement n s msk)) = length (m_current s)"
  by (simp_all add: PerformIncrement_def Let_def)

lemma PerformIncrement_current_nth:
  "i < length (m_current s) \<Longrightarrow>
   m_current (PerformIncrement n s msk) ! i =
     (if i < n \<and> bit msk i then m_current s ! i + 1 else m_current s ! i)"
  by (cases "msk = 0") (simp_all add: PerformIncrement_def Let_def PerformIncrementer_nth)

lemma PerformIncrement_mask_bit:
  "i < MAX_RE_COUNT \<Longrightarrow>
   bit (m_updatedMask (PerformIncrement n s msk)) (MAX_RE_COUNT + i) =
     (bit (m_updatedMask s) (MAX_RE_COUNT + i) \<or> bit msk i)"
  by (cases "msk = 0")
    (simp_all add: PerformIncrement_def Let_def MAX_RE_COUNT_def bit_simps)

lemma PerformReset_frame [simp]:
  "m_state (PerformReset n s a) = m_state s"
  "length (m_current (PerformReset n s a)) = length (m_current s)"
  "length (m_total (PerformReset n s a)) = length (m_total s)"
  by (simp_all add: PerformReset_def Let_def)

lemma gate_zero:
  "a AND ucast u = 0 \<Longrightarrow> j < 32 \<Longrightarrow> \<not> (bit a j \<and> bit u j)"
  for a :: Action and u :: size_t
proof
  assume z: "a AND ucast u = 0" and j: "j < 32" and b: "bit a j \<and> bit u j"
  from j b have "bit (a AND ucast u) j"
    by (simp add: bit_simps)
  with z show False by simp
qed

lemma PerformReset_current_nth:
  "i < length (m_current s) \<Longrightarrow> i < MAX_RE_COUNT \<Longrightarrow>
   m_current (PerformReset n s a) ! i =
     (if i < n \<and> bit a (MAX_RE_COUNT + i) \<and> bit (m_updatedMask s) (MAX_RE_COUNT + i)
      then 0 else m_current s ! i)"
proof (cases "a AND ucast (m_updatedMask s) = 0")
  case True
  assume "i < MAX_RE_COUNT"
  then have "MAX_RE_COUNT + i < 32" by (simp add: MAX_RE_COUNT_def)
  from gate_zero [OF True this] True show ?thesis
    by (auto simp: PerformReset_def Let_def)
next
  case False
  assume "i < length (m_current s)" "i < MAX_RE_COUNT"
  with False show ?thesis
    by (simp add: PerformReset_def Let_def PerformReseter_current_nth bit_simps MAX_RE_COUNT_def)
qed

lemma PerformReset_total_nth:
  "i < length (m_total s) \<Longrightarrow> i < MAX_RE_COUNT \<Longrightarrow>
   m_total (PerformReset n s a) ! i =
     (if i < n \<and> bit a (MAX_RE_COUNT + i) \<and> bit (m_updatedMask s) (MAX_RE_COUNT + i)
         \<and> m_current s ! i \<noteq> 0
      then ymax (m_total s ! i) (m_current s ! i) else m_total s ! i)"
proof (cases "a AND ucast (m_updatedMask s) = 0")
  case True
  assume "i < MAX_RE_COUNT"
  then have "MAX_RE_COUNT + i < 32" by (simp add: MAX_RE_COUNT_def)
  from gate_zero [OF True this] True show ?thesis
    by (auto simp: PerformReset_def Let_def)
next
  case False
  assume "i < length (m_total s)" "i < MAX_RE_COUNT"
  with False show ?thesis
    by (simp add: PerformReset_def Let_def PerformReseter_total_nth bit_simps MAX_RE_COUNT_def)
qed

lemma PerformReset_mask_bit:
  "i < MAX_RE_COUNT \<Longrightarrow>
   bit (m_updatedMask (PerformReset n s a)) (MAX_RE_COUNT + i) =
     (bit (m_updatedMask s) (MAX_RE_COUNT + i) \<and> \<not> bit a (MAX_RE_COUNT + i))"
proof (cases "a AND ucast (m_updatedMask s) = 0")
  case True
  assume "i < MAX_RE_COUNT"
  then have "MAX_RE_COUNT + i < 32" by (simp add: MAX_RE_COUNT_def)
  from gate_zero [OF True this] True show ?thesis
    by (auto simp: PerformReset_def Let_def)
next
  case False
  assume "i < MAX_RE_COUNT"
  with False show ?thesis
    by (auto simp: PerformReset_def Let_def bit_simps MAX_RE_COUNT_def)
qed


lemma IncrementMask_mask: "IncrementMask = mask MAX_RE_COUNT"
  by (simp add: IncrementMask_def mask_eq_exp_minus_1)

lemma ResetMask_mask: "ResetMask = push_bit MAX_RE_COUNT (mask MAX_RE_COUNT)"
  by (simp add: ResetMask_def IncrementMask_mask)

lemma no_increment_bits:
  assumes "a AND IncrementMask = 0" and "i < MAX_RE_COUNT"
  shows "\<not> bit a i"
proof
  assume "bit a i"
  with assms(2) have "bit (a AND IncrementMask) i"
    by (simp add: IncrementMask_mask bit_simps MAX_RE_COUNT_def)
  with assms(1) show False by simp
qed

lemma no_reset_bits:
  assumes "a AND ResetMask = 0" and "i < MAX_RE_COUNT"
  shows "\<not> bit a (MAX_RE_COUNT + i)"
proof
  assume "bit a (MAX_RE_COUNT + i)"
  with assms(2) have "bit (a AND ResetMask) (MAX_RE_COUNT + i)"
    by (simp add: ResetMask_mask bit_simps MAX_RE_COUNT_def)
  with assms(1) show False by simp
qed

lemma TakeActionImpl_frame [simp]:
  "m_state (TakeActionImpl n s a) = m_state s"
  "length (m_current (TakeActionImpl n s a)) = length (m_current s)"
  "length (m_total (TakeActionImpl n s a)) = length (m_total s)"
  by (simp_all add: TakeActionImpl_def Let_def)

lemma TakeActionImpl_current_nth:
  assumes "i < length (m_current s)" and "i < MAX_RE_COUNT"
  shows "m_current (TakeActionImpl n s a) ! i =
     (if i < n \<and> bit a (MAX_RE_COUNT + i) \<and> (bit (m_updatedMask s) (MAX_RE_COUNT + i) \<or> bit a i)
      then 0
      else if i < n \<and> bit a i then m_current s ! i + 1 else m_current s ! i)"
  using assms no_increment_bits [of a i] no_reset_bits [of a i]
  by (auto simp: TakeActionImpl_def Let_def PerformReset_current_nth
      PerformIncrement_current_nth PerformIncrement_mask_bit)

lemma TakeActionImpl_total_nth:
  assumes "i < length (m_total s)" and "i < length (m_current s)" and "i < MAX_RE_COUNT"
  shows "m_total (TakeActionImpl n s a) ! i =
     (if i < n \<and> bit a (MAX_RE_COUNT + i) \<and> (bit (m_updatedMask s) (MAX_RE_COUNT + i) \<or> bit a i)
         \<and> (if bit a i then m_current s ! i + 1 else m_current s ! i) \<noteq> 0
      then ymax (m_total s ! i) (if bit a i then m_current s ! i + 1 else m_current s ! i)
      else m_total s ! i)"
  using assms no_increment_bits [of a i] no_reset_bits [of a i]
  by (auto simp: TakeActionImpl_def Let_def PerformReset_total_nth
      PerformIncrement_current_nth PerformIncrement_mask_bit)

lemma TakeActionImpl_mask_bit:
  assumes "i < MAX_RE_COUNT"
  shows "bit (m_updatedMask (TakeActionImpl n s a)) (MAX_RE_COUNT + i) =
     ((bit (m_updatedMask s) (MAX_RE_COUNT + i) \<or> bit a i) \<and> \<not> bit a (MAX_RE_COUNT + i))"
  using assms no_increment_bits [of a i] no_reset_bits [of a i]
  by (auto simp: TakeActionImpl_def Let_def PerformReset_mask_bit PerformIncrement_mask_bit)



lemma wf_Initialize [simp]: "wf_State (Initialize sc)"
  by (simp add: wf_State_def Initialize_def)

lemma wf_TakeAction [simp]: "wf_State (TakeAction s a) = wf_State s"
  by (simp add: wf_State_def TakeAction_def)

lemma Next_frame [simp]:
  "m_current (fst (Next sc s c)) = m_current s"
  "m_total (fst (Next sc s c)) = m_total s"
  "m_updatedMask (fst (Next sc s c)) = m_updatedMask s"
  by (simp_all add: Next_def NextTranslated_def Let_def)

lemma wf_Next [simp]: "wf_State (fst (Next sc s c)) = wf_State s"
  by (simp add: wf_State_def)

lemma unat_ucast_up [simp]: "unat (ucast w :: size_t) = unat w" for w :: ui32
proof -
  have "uint (ucast w :: size_t) = uint w"
    by (rule uint_up_ucast) (simp add: is_up)
  then show ?thesis
    by (simp only: unat_eq_nat_uint)
qed

lemma TakeAction_m_state [simp]: "m_state (TakeAction s a) = m_state s"
  by (simp add: TakeAction_def)

subsection \<open>The effect of one \<^verbatim>\<open>TakeAction\<close> on each entry\<close>

lemma TakeAction_current_nth:
  assumes "wf_State s" and "i < MAX_RE_COUNT"
  shows "m_current (TakeAction s a) ! i =
     (if i < OPTIMAL_RE_COUNT \<and> bit a (MAX_RE_COUNT + i)
         \<and> (bit (m_updatedMask s) (MAX_RE_COUNT + i) \<or> bit a i)
      then 0
      else if i < OPTIMAL_RE_COUNT \<and> bit a i then m_current s ! i + 1 else m_current s ! i)"
  using assms by (simp add: TakeAction_def wf_State_def TakeActionImpl_current_nth)

lemma TakeAction_total_nth:
  assumes "wf_State s" and "i < MAX_RE_COUNT"
  shows "m_total (TakeAction s a) ! i =
     (if i < OPTIMAL_RE_COUNT \<and> bit a (MAX_RE_COUNT + i)
         \<and> (bit (m_updatedMask s) (MAX_RE_COUNT + i) \<or> bit a i)
         \<and> (if bit a i then m_current s ! i + 1 else m_current s ! i) \<noteq> 0
      then ymax (m_total s ! i) (if bit a i then m_current s ! i + 1 else m_current s ! i)
      else m_total s ! i)"
  using assms by (simp add: TakeAction_def wf_State_def TakeActionImpl_total_nth)

lemma TakeAction_mask_bit:
  assumes "i < MAX_RE_COUNT"
  shows "bit (m_updatedMask (TakeAction s a)) (MAX_RE_COUNT + i) =
     ((bit (m_updatedMask s) (MAX_RE_COUNT + i) \<or> bit a i) \<and> \<not> bit a (MAX_RE_COUNT + i))"
  using assms by (simp add: TakeAction_def TakeActionImpl_mask_bit)

lemma gate_sound_Initialize [simp]: "gate_sound (Initialize sc)"
  by (simp add: gate_sound_def Initialize_def)

lemma gate_sound_Next [simp]: "gate_sound (fst (Next sc s c)) = gate_sound s"
  by (simp add: gate_sound_def)

lemma wf_PerformIncrement [simp]: "wf_State (PerformIncrement n s a) = wf_State s"
  by (simp add: wf_State_def)

lemma wf_PerformReset [simp]: "wf_State (PerformReset n s a) = wf_State s"
  by (simp add: wf_State_def)

lemma gate_sound_PerformIncrement:
  assumes "wf_State s" and "gate_sound s"
  shows "gate_sound (PerformIncrement OPTIMAL_RE_COUNT s a)"
  unfolding gate_sound_def
proof (intro allI impI)
  fix i assume i: "i < MAX_RE_COUNT"
  with assms(1) have len: "i < length (m_current s)"
    by (simp add: wf_State_def)
  from assms(2) i have g: "m_current s ! i \<noteq> 0 \<longrightarrow> bit (m_updatedMask s) (MAX_RE_COUNT + i)"
    and z: "OPTIMAL_RE_COUNT \<le> i \<longrightarrow> m_current s ! i = 0"
    by (simp_all add: gate_sound_def)
  from g z show "(m_current (PerformIncrement OPTIMAL_RE_COUNT s a) ! i \<noteq> 0 \<longrightarrow>
        bit (m_updatedMask (PerformIncrement OPTIMAL_RE_COUNT s a)) (MAX_RE_COUNT + i))
      \<and> (OPTIMAL_RE_COUNT \<le> i \<longrightarrow> m_current (PerformIncrement OPTIMAL_RE_COUNT s a) ! i = 0)"
    by (auto simp: PerformIncrement_current_nth [OF len] PerformIncrement_mask_bit [OF i])
qed

lemma gate_sound_PerformReset:
  assumes "wf_State s" and "gate_sound s"
  shows "gate_sound (PerformReset OPTIMAL_RE_COUNT s a)"
  unfolding gate_sound_def
proof (intro allI impI)
  fix i assume i: "i < MAX_RE_COUNT"
  with assms(1) have len: "i < length (m_current s)"
    by (simp add: wf_State_def)
  from assms(2) i have g: "m_current s ! i \<noteq> 0 \<longrightarrow> bit (m_updatedMask s) (MAX_RE_COUNT + i)"
    and z: "OPTIMAL_RE_COUNT \<le> i \<longrightarrow> m_current s ! i = 0"
    by (simp_all add: gate_sound_def)
  from g z show "(m_current (PerformReset OPTIMAL_RE_COUNT s a) ! i \<noteq> 0 \<longrightarrow>
        bit (m_updatedMask (PerformReset OPTIMAL_RE_COUNT s a)) (MAX_RE_COUNT + i))
      \<and> (OPTIMAL_RE_COUNT \<le> i \<longrightarrow> m_current (PerformReset OPTIMAL_RE_COUNT s a) ! i = 0)"
    by (auto simp: PerformReset_current_nth [OF len i] PerformReset_mask_bit [OF i])
qed

lemma gate_sound_TakeAction:
  assumes "wf_State s" and "gate_sound s"
  shows "gate_sound (TakeAction s a)"
  using assms
  by (simp add: TakeAction_def TakeActionImpl_def Let_def gate_sound_PerformIncrement
      gate_sound_PerformReset)

lemma runtime_state_invariant:
  "runtime_state sc s \<Longrightarrow> wf_State s \<and> gate_sound s"
  by (induction rule: runtime_state.induct)
    (simp_all add: gate_sound_PerformIncrement gate_sound_PerformReset)

lemma runtime_state_TakeAction:
  "runtime_state sc s \<Longrightarrow> runtime_state sc (TakeAction s a)"
  by (simp add: TakeAction_def TakeActionImpl_def Let_def rs_increment rs_reset)

lemma run_steps_snoc [simp]:
  "run_steps sc (steps @ [x]) = apply_step sc (run_steps sc steps) x"
  by (simp add: run_steps_def)

lemma run_steps_Nil [simp]: "run_steps sc [] = Initialize sc"
  by (simp add: run_steps_def)

lemma runtime_state_run_steps: "runtime_state sc (run_steps sc steps)"
proof (induction steps rule: rev_induct)
  case Nil
  show ?case by (simp add: rs_init)
next
  case (snoc x steps)
  then show ?case
    by (cases x) (simp_all add: rs_next runtime_state_TakeAction)
qed

subsection \<open>Runs: bounds on the counters\<close>

lemma action_count_append [simp]:
  "action_count (xs @ ys) = action_count xs + action_count ys"
  by (induction xs rule: action_count.induct) simp_all

lemma unat_Suc_le: "unat (w + 1) \<le> Suc (unat w)" for w :: ui32
proof -
  have "unat (w + 1) = (unat w + 1) mod 2 ^ 32"
    by (simp add: unat_word_ariths)
  also have "\<dots> \<le> unat w + 1"
    by (rule mod_less_eq_dividend)
  finally show ?thesis by simp
qed

lemma Suc_nonzero: "unat w < 4294967295 \<Longrightarrow> w + 1 \<noteq> 0" for w :: ui32
proof
  assume b: "unat w < 4294967295" and z: "w + 1 = 0"
  have "unat (w + 1) = (unat w + 1) mod 2 ^ 32"
    by (simp add: unat_word_ariths)
  with b have "unat (w + 1) = unat w + 1"
    by simp
  with z show False by simp
qed

lemma run_steps_invariant:
  "wf_State (run_steps sc steps) \<and> gate_sound (run_steps sc steps)"
  using runtime_state_invariant [OF runtime_state_run_steps] .

lemma run_steps_bounded:
  "i < MAX_RE_COUNT \<Longrightarrow> unat (m_current (run_steps sc steps) ! i) \<le> action_count steps"
proof (induction steps rule: rev_induct)
  case Nil
  then show ?case by (simp add: Initialize_def)
next
  case (snoc x steps)
  have wf: "wf_State (run_steps sc steps)"
    using run_steps_invariant by simp
  show ?case
  proof (cases x)
    case (StepNext c)
    with snoc show ?thesis by simp
  next
    case (StepTakeAction a)
    from snoc have ih: "unat (m_current (run_steps sc steps) ! i) \<le> action_count steps"
      by simp
    from unat_Suc_le [of "m_current (run_steps sc steps) ! i"] ih
    have "unat (m_current (run_steps sc steps) ! i + 1) \<le> Suc (action_count steps)"
      by simp
    with ih StepTakeAction show ?thesis
      by (simp add: TakeAction_current_nth [OF wf snoc.prems])
  qed
qed

lemma run_steps_exact:
  "action_count steps < 2 ^ 32 \<Longrightarrow> i < OPTIMAL_RE_COUNT \<Longrightarrow>
   bit (m_updatedMask (run_steps sc steps)) (MAX_RE_COUNT + i) \<Longrightarrow>
   m_current (run_steps sc steps) ! i \<noteq> 0"
proof (induction steps rule: rev_induct)
  case Nil
  then show ?case by (simp add: Initialize_def)
next
  case (snoc x steps)
  have wf: "wf_State (run_steps sc steps)"
    using run_steps_invariant by simp
  from snoc.prems(2) have i: "i < MAX_RE_COUNT"
    by (simp add: OPTIMAL_RE_COUNT_def MAX_RE_COUNT_def)
  show ?case
  proof (cases x)
    case (StepNext c)
    with snoc show ?thesis by simp
  next
    case (StepTakeAction a)
    with snoc.prems(1) have k: "action_count steps < 4294967295"
      by simp
    with run_steps_bounded [OF i, of sc steps]
    have "unat (m_current (run_steps sc steps) ! i) < 4294967295"
      by simp
    then have nz: "m_current (run_steps sc steps) ! i + 1 \<noteq> 0"
      by (rule Suc_nonzero)
    from k snoc.IH snoc.prems(2)
    have ih: "bit (m_updatedMask (run_steps sc steps)) (MAX_RE_COUNT + i) \<longrightarrow>
        m_current (run_steps sc steps) ! i \<noteq> 0"
      by simp
    from snoc.prems(3) StepTakeAction
    have b: "bit (m_updatedMask (TakeAction (run_steps sc steps) a)) (MAX_RE_COUNT + i)"
      by simp
    from b ih nz StepTakeAction snoc.prems(2) show ?thesis
      by (auto simp: TakeAction_current_nth [OF wf i] TakeAction_mask_bit [OF i])
  qed
qed

subsection \<open>The ungated variant, entry by entry\<close>

lemma Reseter_ungated_frame [simp]:
  "m_state (Reseter_ungated n s a) = m_state s"
  "m_updatedMask (Reseter_ungated n s a) = m_updatedMask s"
  "length (m_current (Reseter_ungated n s a)) = length (m_current s)"
  "length (m_total (Reseter_ungated n s a)) = length (m_total s)"
  by (induction n arbitrary: s; simp)+

lemma Reseter_ungated_current_nth:
  "i < length (m_current s) \<Longrightarrow>
   m_current (Reseter_ungated n s a) ! i =
     (if i < n \<and> bit a (MAX_RE_COUNT + i) then 0 else m_current s ! i)"
proof (induction n arbitrary: s)
  case 0
  then show ?case by simp
next
  case (Suc n)
  then show ?case
    by (auto simp: nth_list_update less_Suc_eq)
qed

lemma Reseter_ungated_total_nth:
  "i < length (m_total s) \<Longrightarrow>
   m_total (Reseter_ungated n s a) ! i =
     (if i < n \<and> bit a (MAX_RE_COUNT + i)
      then max (m_total s ! i) (m_current s ! i) else m_total s ! i)"
proof (induction n arbitrary: s)
  case 0
  then show ?case by simp
next
  case (Suc n)
  show ?case
  proof (cases "i = n")
    case True
    with Suc show ?thesis by simp
  next
    case False
    with Suc show ?thesis by (auto simp: less_Suc_eq)
  qed
qed

lemma wf_TakeAction_ungated [simp]: "wf_State (TakeAction_ungated s a) = wf_State s"
  by (simp add: wf_State_def TakeAction_ungated_def)

lemma TakeAction_ungated_m_state [simp]: "m_state (TakeAction_ungated s a) = m_state s"
  by (simp add: TakeAction_ungated_def)

lemma TakeAction_ungated_current_nth:
  assumes "wf_State s" and "i < MAX_RE_COUNT"
  shows "m_current (TakeAction_ungated s a) ! i =
     (if bit a (MAX_RE_COUNT + i) then 0
      else if i < OPTIMAL_RE_COUNT \<and> bit a i then m_current s ! i + 1 else m_current s ! i)"
  using assms
  by (simp add: TakeAction_ungated_def wf_State_def Reseter_ungated_current_nth
      PerformIncrementer_nth)

lemma TakeAction_ungated_total_nth:
  assumes "wf_State s" and "i < MAX_RE_COUNT"
  shows "m_total (TakeAction_ungated s a) ! i =
     (if bit a (MAX_RE_COUNT + i)
      then max (m_total s ! i)
        (if i < OPTIMAL_RE_COUNT \<and> bit a i then m_current s ! i + 1 else m_current s ! i)
      else m_total s ! i)"
  using assms
  by (simp add: TakeAction_ungated_def wf_State_def Reseter_ungated_total_nth
      PerformIncrementer_nth)

lemma gate_is_invisible:
  assumes wf: "wf_State s" and gs: "gate_sound s"
    and eq: "m_current t = m_current s" "m_total t = m_total s"
  shows "m_current (TakeAction_ungated t a) = m_current (TakeAction s a)
       \<and> m_total (TakeAction_ungated t a) = m_total (TakeAction s a)"
proof -
  from wf eq have wft: "wf_State t"
    by (simp add: wf_State_def)
  have pt: "m_current (TakeAction_ungated t a) ! i = m_current (TakeAction s a) ! i
      \<and> m_total (TakeAction_ungated t a) ! i = m_total (TakeAction s a) ! i"
    if i: "i < MAX_RE_COUNT" for i
  proof -
    from gs i have g: "m_current s ! i \<noteq> 0 \<longrightarrow> bit (m_updatedMask s) (MAX_RE_COUNT + i)"
      and z: "OPTIMAL_RE_COUNT \<le> i \<longrightarrow> m_current s ! i = 0"
      by (simp_all add: gate_sound_def)
    from g z show ?thesis
      by (auto simp: TakeAction_ungated_current_nth [OF wft i]
          TakeAction_ungated_total_nth [OF wft i] TakeAction_current_nth [OF wf i]
          TakeAction_total_nth [OF wf i] eq ymax_max)
  qed
  have "m_current (TakeAction_ungated t a) = m_current (TakeAction s a)"
    using wf wft pt by (intro nth_equalityI) (simp_all add: wf_State_def TakeAction_def TakeAction_ungated_def)
  moreover have "m_total (TakeAction_ungated t a) = m_total (TakeAction s a)"
    using wf wft pt by (intro nth_equalityI) (simp_all add: wf_State_def TakeAction_def TakeAction_ungated_def)
  ultimately show ?thesis by simp
qed

lemma run_steps_ungated_snoc [simp]:
  "run_steps_ungated sc (steps @ [x]) = apply_step_ungated sc (run_steps_ungated sc steps) x"
  by (simp add: run_steps_ungated_def)

lemma run_steps_ungated_Nil [simp]: "run_steps_ungated sc [] = Initialize sc"
  by (simp add: run_steps_ungated_def)

lemma Next_m_state: "m_state (fst (Next sc s c)) = m_state s + SignExtend (shift (row sc (m_state s) (Translate sc c)))"
  by (simp add: Next_def NextTranslated_def Let_def)

lemma run_steps_ungated_eq:
  "m_current (run_steps_ungated sc steps) = m_current (run_steps sc steps)
   \<and> m_total (run_steps_ungated sc steps) = m_total (run_steps sc steps)
   \<and> m_state (run_steps_ungated sc steps) = m_state (run_steps sc steps)"
proof (induction steps rule: rev_induct)
  case Nil
  show ?case by simp
next
  case (snoc x steps)
  show ?case
  proof (cases x)
    case (StepNext c)
    with snoc show ?thesis by (simp add: Next_m_state)
  next
    case (StepTakeAction a)
    from snoc run_steps_invariant [of sc steps]
      gate_is_invisible [of "run_steps sc steps" "run_steps_ungated sc steps" a]
    show ?thesis
      by (simp add: StepTakeAction)
  qed
qed

subsection \<open>Monotonicity of one step\<close>

lemma Result_le_iff:
  "(Result s i \<le> Result t i) =
     (max (m_current s ! i) (m_total s ! i) \<le> max (m_current t ! i) (m_total t ! i))"
  by (simp add: Result_def ymax_max word_le_nat_alt)

lemma word_le_Suc: "unat w < 4294967295 \<Longrightarrow> w \<le> w + 1" for w :: ui32
proof -
  assume b: "unat w < 4294967295"
  have "unat (w + 1) = (unat w + 1) mod 2 ^ 32"
    by (simp add: unat_word_ariths)
  with b have "unat (w + 1) = unat w + 1"
    by simp
  then show ?thesis
    by (simp add: word_le_nat_alt)
qed

lemma TakeAction_Result_mono:
  assumes wf: "wf_State s" and i: "i < MAX_RE_COUNT"
    and b: "unat (m_current s ! i) < 4294967295"
  shows "Result s i \<le> Result (TakeAction s a) i"
proof -
  from b have le: "m_current s ! i \<le> m_current s ! i + 1"
    by (rule word_le_Suc)
  from b have nz: "m_current s ! i + 1 \<noteq> 0"
    by (rule Suc_nonzero)
  from le nz show ?thesis
    unfolding Result_le_iff TakeAction_current_nth [OF wf i] TakeAction_total_nth [OF wf i]
    by (auto simp: ymax_max max_def)
qed

lemma run_increments:
  "m_current (run_steps sc (replicate k (StepTakeAction 1))) ! 0 = of_nat k
   \<and> m_total (run_steps sc (replicate k (StepTakeAction 1))) ! 0 = 0"
proof (induction k)
  case 0
  show ?case by (simp add: Initialize_def MAX_RE_COUNT_def)
next
  case (Suc k)
  have wf: "wf_State (run_steps sc (replicate k (StepTakeAction 1)))"
    using run_steps_invariant by simp
  have i: "(0::nat) < MAX_RE_COUNT"
    by (simp add: MAX_RE_COUNT_def)
  have r: "replicate (Suc k) (StepTakeAction 1) = replicate k (StepTakeAction 1) @ [StepTakeAction 1]"
    by (simp add: replicate_append_same)
  from Suc show ?case
    unfolding r run_steps_snoc
    by (simp add: TakeAction_current_nth [OF wf i] TakeAction_total_nth [OF wf i]
        MAX_RE_COUNT_def OPTIMAL_RE_COUNT_def)
qed

lemma run_increments_mask:
  "0 < k \<Longrightarrow>
   bit (m_updatedMask (run_steps sc (replicate k (StepTakeAction 1)))) (MAX_RE_COUNT + 0)"
proof (induction k)
  case 0
  then show ?case by simp
next
  case (Suc k)
  have i: "(0::nat) < MAX_RE_COUNT"
    by (simp add: MAX_RE_COUNT_def)
  have r: "replicate (Suc k) (StepTakeAction 1) = replicate k (StepTakeAction 1) @ [StepTakeAction 1]"
    by (simp add: replicate_append_same)
  have "bit (1 :: Action) 0" and "\<not> bit (1 :: Action) (MAX_RE_COUNT + 0)"
    by (simp_all add: MAX_RE_COUNT_def)
  then show ?case
    unfolding r run_steps_snoc apply_step.simps TakeAction_mask_bit [OF i]
    by simp
qed

text \<open>Why the bound on the number of steps is there: \<open>2^32\<close> increments of pattern 0
  wrap its counter to zero and leave its mask bit set.\<close>

lemma mask_bit_after_wrap:
  "bit (m_updatedMask (run_steps demo_scanner (replicate 4294967296 (StepTakeAction 1))))
     (MAX_RE_COUNT + 0)
   \<and> m_current (run_steps demo_scanner (replicate 4294967296 (StepTakeAction 1))) ! 0 = 0"
proof -
  have z: "(of_nat 4294967296 :: ui32) = 0"
    by simp
  from run_increments [of demo_scanner 4294967296]
    run_increments_mask [of 4294967296 demo_scanner] z
  show ?thesis
    by simp
qed

subsection \<open>The worklist stops on a product that is too large\<close>

lemma closed_covers_reachable:
  assumes init: "x0 \<in> A" and closed: "\<forall>p\<in>A. set (succs p) \<subseteq> A"
    and r: "(x0, q) \<in> {(p, q). q \<in> set (succs p)}\<^sup>*"
  shows "q \<in> A"
  using r
proof (induction rule: rtrancl_induct)
  case base
  show ?case by (rule init)
next
  case (step y z)
  with closed show ?case by auto
qed

lemma glue_loop_inner:
  fixes succs :: "'a \<Rightarrow> 'a list"
  assumes outer: "\<And>todo' seen'. maxSize - length seen' < maxSize - length seen \<Longrightarrow>
      distinct seen' \<Longrightarrow> x0 \<in> set seen' \<Longrightarrow>
      (\<forall>p\<in>set seen'. p \<notin> set todo' \<longrightarrow> set (succs p) \<subseteq> set seen') \<Longrightarrow>
      length seen' \<le> maxSize \<Longrightarrow>
      glue_loop maxSize succs todo' seen' = Some TooLarge"
    and pos: "0 < maxSize"
    and S: "distinct S" "set S \<subseteq> {q. (x0, q) \<in> {(p, q). q \<in> set (succs p)}\<^sup>*}"
      "maxSize < length S"
    and inv: "distinct seen" "x0 \<in> set seen"
      "\<forall>p\<in>set seen. p \<notin> set todo \<longrightarrow> set (succs p) \<subseteq> set seen"
      "length seen \<le> maxSize"
  shows "glue_loop maxSize succs todo seen = Some TooLarge"
  using inv(3)
proof (induction todo)
  case Nil
  then have closed: "\<forall>p\<in>set seen. set (succs p) \<subseteq> set seen"
    by simp
  have "set S \<subseteq> set seen"
  proof
    fix q assume "q \<in> set S"
    with S(2) have "(x0, q) \<in> {(p, q). q \<in> set (succs p)}\<^sup>*"
      by auto
    from closed_covers_reachable [OF inv(2) closed this] show "q \<in> set seen" .
  qed
  then have "card (set S) \<le> card (set seen)"
    by (simp add: card_mono)
  with S(1) inv(1) have "length S \<le> length seen"
    by (simp add: distinct_card)
  with S(3) inv(4) show ?case
    by simp
next
  case (Cons p rest)
  let ?new = "remdups (filter (\<lambda>q. q \<notin> set seen) (succs p))"
  show ?case
  proof (cases "?new = []")
    case True
    then have sub: "set (succs p) \<subseteq> set seen"
      by (auto simp: filter_empty_conv)
    with Cons.prems have "\<forall>q\<in>set seen. q \<notin> set rest \<longrightarrow> set (succs q) \<subseteq> set seen"
      by auto
    from Cons.IH [OF this] True inv(4) show ?thesis
      by (subst glue_loop.simps) simp
  next
    case False
    show ?thesis
    proof (cases "maxSize < length (seen @ ?new)")
      case True
      with pos show ?thesis
        by (subst glue_loop.simps) (simp add: Let_def)
    next
      case big: False
      from False have n: "0 < length ?new"
        by simp
      from n big have m: "maxSize - length (seen @ ?new) < maxSize - length seen"
        unfolding length_append by linarith
      have d: "distinct (seen @ ?new)"
        using inv(1) by auto
      have i: "x0 \<in> set (seen @ ?new)"
        using inv(2) by simp
      have c: "\<forall>q\<in>set (seen @ ?new). q \<notin> set (rest @ ?new) \<longrightarrow>
          set (succs q) \<subseteq> set (seen @ ?new)"
        using Cons.prems by auto
      from big have l: "length (seen @ ?new) \<le> maxSize"
        by simp
      from outer [OF m d i c l] big show ?thesis
        by (subst glue_loop.simps) (simp add: Let_def)
    qed
  qed
qed

lemma glue_loop_too_large:
  fixes succs :: "'a \<Rightarrow> 'a list"
  assumes pos: "0 < maxSize"
    and S: "distinct S" "set S \<subseteq> {q. (x0, q) \<in> {(p, q). q \<in> set (succs p)}\<^sup>*}"
      "maxSize < length S"
  shows "distinct seen \<Longrightarrow> x0 \<in> set seen \<Longrightarrow>
      (\<forall>p\<in>set seen. p \<notin> set todo \<longrightarrow> set (succs p) \<subseteq> set seen) \<Longrightarrow>
      length seen \<le> maxSize \<Longrightarrow>
      glue_loop maxSize succs todo seen = Some TooLarge"
proof (induction "maxSize - length seen" arbitrary: todo seen rule: less_induct)
  case less
  show ?case
    by (rule glue_loop_inner [OF _ pos S less.prems]) (rule less.hyps)
qed

subsection \<open>Increment by bit position\<close>

text \<open>
  Claim C1, as the code has it. \<^verbatim>\<open>TakeAction\<close> is
  \<^verbatim>\<open>TakeActionImpl<OPTIMAL_RE_COUNT>\<close>, so it serves the indices below
  \<open>OPTIMAL_RE_COUNT = 4\<close>. For such an index \<open>i\<close> and any state: if bit \<open>i\<close> of the
  action word is set, the increment step adds exactly one (modulo \<open>2^32\<close>) to
  \<open>current[i]\<close>, with no gate; after the whole \<^verbatim>\<open>TakeAction\<close> the entry is the old
  value plus one when bit \<open>MAX_RE_COUNT + i\<close> is clear, and it has been committed to
  \<open>total[i]\<close> and zeroed when that bit is set too. With neither bit set the two entries
  are untouched. So bit \<open>i\<close> acts as Increment(i) and bit \<open>MAX_RE_COUNT + i\<close> as
  Reset(i).
\<close>

theorem TakeAction_increment:
  assumes "wf_State s" and "i < OPTIMAL_RE_COUNT"
  shows "(bit a i \<longrightarrow>
            m_current (PerformIncrement OPTIMAL_RE_COUNT s a) ! i = m_current s ! i + 1)
       \<and> (bit a i \<and> \<not> bit a (MAX_RE_COUNT + i) \<longrightarrow>
            m_current (TakeAction s a) ! i = m_current s ! i + 1
          \<and> m_total (TakeAction s a) ! i = m_total s ! i)
       \<and> (\<not> bit a i \<and> \<not> bit a (MAX_RE_COUNT + i) \<longrightarrow>
            m_current (TakeAction s a) ! i = m_current s ! i
          \<and> m_total (TakeAction s a) ! i = m_total s ! i)
       \<and> (bit a i \<and> bit a (MAX_RE_COUNT + i) \<longrightarrow>
            m_current (TakeAction s a) ! i = 0
          \<and> m_total (TakeAction s a) ! i = max (m_total s ! i) (m_current s ! i + 1))"
proof -
  from assms have len: "i < length (m_current s)" "i < length (m_total s)" "i < MAX_RE_COUNT"
    by (simp_all add: wf_State_def OPTIMAL_RE_COUNT_def MAX_RE_COUNT_def)
  have incr: "bit a i \<longrightarrow>
      m_current (PerformIncrement OPTIMAL_RE_COUNT s a) ! i = m_current s ! i + 1"
    using assms(2) len by (simp add: PerformIncrement_current_nth)
  have cur: "m_current (TakeAction s a) ! i =
      (if bit a (MAX_RE_COUNT + i) \<and> (bit (m_updatedMask s) (MAX_RE_COUNT + i) \<or> bit a i)
       then 0 else if bit a i then m_current s ! i + 1 else m_current s ! i)"
    using assms(2) len by (simp add: TakeAction_def TakeActionImpl_current_nth)
  have tot: "m_total (TakeAction s a) ! i =
      (if bit a (MAX_RE_COUNT + i) \<and> (bit (m_updatedMask s) (MAX_RE_COUNT + i) \<or> bit a i)
          \<and> (if bit a i then m_current s ! i + 1 else m_current s ! i) \<noteq> 0
       then ymax (m_total s ! i) (if bit a i then m_current s ! i + 1 else m_current s ! i)
       else m_total s ! i)"
    using assms(2) len by (simp add: TakeAction_def TakeActionImpl_total_nth)
  from incr cur tot show ?thesis
    by (auto simp: ymax_max)
qed

text \<open>The theorem at the initial state, for the action words \<open>1\<close> and \<open>65537\<close>.\<close>

theorem TakeAction_increment_witness:
  "bit (1 :: Action) 0
   \<and> m_current (PerformIncrement OPTIMAL_RE_COUNT (Initialize demo_scanner) 1) ! 0 = 1
   \<and> m_current (TakeAction (Initialize demo_scanner) 1) ! 0 = 1
   \<and> m_current (TakeAction (Initialize demo_scanner) 65537) ! 0 = 0
   \<and> m_total (TakeAction (Initialize demo_scanner) 65537) ! 0 = 1"
proof -
  have wf: "wf_State (Initialize demo_scanner)"
    by simp
  have i: "(0::nat) < OPTIMAL_RE_COUNT"
    by (simp add: OPTIMAL_RE_COUNT_def)
  have z: "m_current (Initialize demo_scanner) ! 0 = 0" "m_total (Initialize demo_scanner) ! 0 = 0"
    by (simp_all add: Initialize_def MAX_RE_COUNT_def)
  from TakeAction_increment [OF wf i, of 1] TakeAction_increment [OF wf i, of 65537] z
  show ?thesis
    by (simp add: MAX_RE_COUNT_def)
qed

text \<open>Index 4 is below \<open>MAX_RE_COUNT\<close> but not below \<open>OPTIMAL_RE_COUNT\<close>:
  \<^verbatim>\<open>TakeAction\<close> with bit 4 set leaves \<open>current[4]\<close> at zero.\<close>

theorem TakeAction_increment_counterexample:
  "4 < MAX_RE_COUNT \<and> bit (16 :: Action) 4
   \<and> m_current (TakeAction (Initialize demo_scanner) 16) ! 4
       \<noteq> m_current (Initialize demo_scanner) ! 4 + 1"
  by code_simp

subsection \<open>Reset commits and zeroes\<close>

text \<open>
  Claim C2, as the code has it. In every state reached from \<^verbatim>\<open>Initialize\<close> by
  \<^verbatim>\<open>Next\<close> and \<^verbatim>\<open>TakeAction\<close> (which is
  \<^verbatim>\<open>TakeActionImpl<OPTIMAL_RE_COUNT>\<close>), the state between the two phases of a
  \<^verbatim>\<open>TakeAction\<close> included, and for every index \<open>i < MAX_RE_COUNT\<close>:
  \<^verbatim>\<open>PerformReset\<close> with an action word whose bit \<open>MAX_RE_COUNT + i\<close> is set leaves
  \<open>total[i] = max(total[i], current[i])\<close> (of the values before) and
  \<open>current[i] = 0\<close>; an index whose reset bit is clear keeps both entries.
\<close>

theorem PerformReset_commits:
  assumes "runtime_state sc s" and "i < MAX_RE_COUNT"
  shows "(bit a (MAX_RE_COUNT + i) \<longrightarrow>
           m_total (PerformReset OPTIMAL_RE_COUNT s a) ! i = max (m_total s ! i) (m_current s ! i)
         \<and> m_current (PerformReset OPTIMAL_RE_COUNT s a) ! i = 0)
       \<and> (\<not> bit a (MAX_RE_COUNT + i) \<longrightarrow>
           m_total (PerformReset OPTIMAL_RE_COUNT s a) ! i = m_total s ! i
         \<and> m_current (PerformReset OPTIMAL_RE_COUNT s a) ! i = m_current s ! i)"
proof -
  from runtime_state_invariant [OF assms(1)] have wf: "wf_State s" and gs: "gate_sound s"
    by simp_all
  from wf assms(2) have len: "i < length (m_current s)" "i < length (m_total s)"
    by (simp_all add: wf_State_def)
  from gs assms(2) have g: "m_current s ! i \<noteq> 0 \<longrightarrow> bit (m_updatedMask s) (MAX_RE_COUNT + i)"
    and z: "OPTIMAL_RE_COUNT \<le> i \<longrightarrow> m_current s ! i = 0"
    by (simp_all add: gate_sound_def)
  from g z show ?thesis
    by (auto simp: PerformReset_current_nth [OF len(1) assms(2)]
        PerformReset_total_nth [OF len(2) assms(2)] ymax_max)
qed

text \<open>
  The theorem after two increments of pattern 0 (reset bit set: the run of two is
  committed), and for pattern 1 with its reset bit clear.
\<close>

theorem PerformReset_commits_witness:
  "m_total (PerformReset OPTIMAL_RE_COUNT
      (TakeAction (TakeAction (Initialize demo_scanner) 1) 1) 65536) ! 0 = 2
   \<and> m_current (PerformReset OPTIMAL_RE_COUNT
      (TakeAction (TakeAction (Initialize demo_scanner) 1) 1) 65536) ! 0 = 0
   \<and> m_current (PerformReset OPTIMAL_RE_COUNT
      (TakeAction (TakeAction (Initialize demo_scanner) 3) 1) 65536) ! 1 = 1"
proof -
  let ?s = "TakeAction (TakeAction (Initialize demo_scanner) 1) 1"
  let ?t = "TakeAction (TakeAction (Initialize demo_scanner) 3) 1"
  have r: "runtime_state demo_scanner ?s" "runtime_state demo_scanner ?t"
    by (simp_all add: runtime_state_TakeAction rs_init)
  have i: "(0::nat) < MAX_RE_COUNT" "(1::nat) < MAX_RE_COUNT"
    by (simp_all add: MAX_RE_COUNT_def)
  have v: "m_current ?s ! 0 = 2" "m_total ?s ! 0 = 0" "m_current ?t ! 1 = 1"
    by code_simp+
  have b: "bit (65536 :: Action) (MAX_RE_COUNT + 0)" "\<not> bit (65536 :: Action) (MAX_RE_COUNT + 1)"
    by (simp_all add: MAX_RE_COUNT_def)
  from PerformReset_commits [OF r(1) i(1), of 65536] PerformReset_commits [OF r(2) i(2), of 65536] v b
  show ?thesis
    by simp
qed

text \<open>
  The restriction to those states is needed. \<^verbatim>\<open>TakeActionImpl<MAX_RE_COUNT>\<close> is as
  public as \<^verbatim>\<open>TakeAction\<close>; with the action word 16 it takes the initial state to
  one with \<open>current[4] = 1\<close>. There the reset of \<^verbatim>\<open>TakeAction\<close>, unrolled over four
  indices, is given the Reset bit of pattern 4 and commits nothing:
  \<open>current[4]\<close> stays 1 and \<open>total[4]\<close> stays 0.
\<close>

theorem PerformReset_commits_counterexample:
  "4 < MAX_RE_COUNT
   \<and> bit (1048576 :: Action) (MAX_RE_COUNT + 4)
   \<and> m_current (TakeActionImpl MAX_RE_COUNT (Initialize demo_scanner) 16) ! 4 = 1
   \<and> m_total (TakeActionImpl MAX_RE_COUNT (Initialize demo_scanner) 16) ! 4 = 0
   \<and> m_current (PerformReset OPTIMAL_RE_COUNT
         (TakeActionImpl MAX_RE_COUNT (Initialize demo_scanner) 16) 1048576) ! 4 = 1
   \<and> m_total (PerformReset OPTIMAL_RE_COUNT
         (TakeActionImpl MAX_RE_COUNT (Initialize demo_scanner) 16) 1048576) ! 4 = 0
   \<and> m_current (TakeAction
         (TakeActionImpl MAX_RE_COUNT (Initialize demo_scanner) 16) 1048576) ! 4 = 1"
  by code_simp

subsection \<open>The reported count\<close>

text \<open>
  Claim C3. \<^verbatim>\<open>Result(i)\<close> is the larger of \<open>current[i]\<close> and \<open>total[i]\<close>,
  widened to \<^verbatim>\<open>size_t\<close>; so it is never below the run in progress nor below the
  best committed run.
\<close>

theorem Result_is_max:
  assumes "wf_State s" and "i < MAX_RE_COUNT"
  shows "Result s i = ucast (max (m_current s ! i) (m_total s ! i))
       \<and> unat (Result s i) = max (unat (m_current s ! i)) (unat (m_total s ! i))
       \<and> ucast (m_current s ! i) \<le> Result s i
       \<and> ucast (m_total s ! i) \<le> Result s i"
proof -
  have r: "Result s i = ucast (max (m_current s ! i) (m_total s ! i))"
    by (simp add: Result_def ymax_max)
  have u: "unat (Result s i) = max (unat (m_current s ! i)) (unat (m_total s ! i))"
    unfolding r by (simp add: max_def word_le_nat_alt)
  from u have "unat (ucast (m_current s ! i) :: size_t) \<le> unat (Result s i)"
     and "unat (ucast (m_total s ! i) :: size_t) \<le> unat (Result s i)"
    by simp_all
  with r u show ?thesis
    by (simp add: word_le_nat_alt)
qed

text \<open>
  The theorem after two increments (the run in progress counts), and after a committed
  run of one followed by a new run of one.
\<close>

theorem Result_is_max_witness:
  "Result (TakeAction (TakeAction (Initialize demo_scanner) 1) 1) 0 = 2
   \<and> Result (TakeAction (TakeAction (TakeAction (Initialize demo_scanner) 1) 65536) 1) 0 = 1"
proof -
  let ?s = "TakeAction (TakeAction (Initialize demo_scanner) 1) 1"
  let ?t = "TakeAction (TakeAction (TakeAction (Initialize demo_scanner) 1) 65536) 1"
  have wf: "wf_State ?s" "wf_State ?t"
    by simp_all
  have i: "(0::nat) < MAX_RE_COUNT"
    by (simp add: MAX_RE_COUNT_def)
  have v: "m_current ?s ! 0 = 2" "m_total ?s ! 0 = 0" "m_current ?t ! 0 = 1" "m_total ?t ! 0 = 1"
    by code_simp+
  from Result_is_max [OF wf(1) i] Result_is_max [OF wf(2) i] v show ?thesis
    by simp
qed

subsection \<open>From accept tags to action words\<close>

text \<open>
  Claim C4. \<^verbatim>\<open>RemapAction\<close> runs while a scanner is built, when the tracked patterns
  are those below \<open>built_patterns\<close>. It maps the tag \<open>Matched | DeadFlag\<close> to an
  action word with the Increment bit of every tracked pattern set, the tag \<open>DeadFlag\<close>
  alone to an action word with the Reset bit of every tracked pattern set, and every other
  tag to the zero action word. The two words are \<open>1\<close> and \<open>1 << MAX_RE_COUNT\<close>, and
  they have no other bit.
\<close>

theorem RemapAction_cases:
  "(j < built_patterns \<longrightarrow>
       bit (RemapAction (Matched OR DeadFlag)) j
     \<and> bit (RemapAction DeadFlag) (MAX_RE_COUNT + j))
   \<and> RemapAction (Matched OR DeadFlag) = 1
   \<and> RemapAction DeadFlag = push_bit MAX_RE_COUNT 1
   \<and> (a \<noteq> (Matched OR DeadFlag) \<and> a \<noteq> DeadFlag \<longrightarrow> RemapAction a = 0)
   \<and> bit (RemapAction (Matched OR DeadFlag)) i = (i = 0)
   \<and> bit (RemapAction DeadFlag) i = (i = MAX_RE_COUNT)"
proof -
  have m: "RemapAction (Matched OR DeadFlag) = 1"
    by (simp add: RemapAction_def)
  have d: "RemapAction DeadFlag = push_bit MAX_RE_COUNT 1"
    by (simp add: RemapAction_def Matched_def DeadFlag_def)
  have b: "bit (push_bit MAX_RE_COUNT 1 :: Action) k = (k = MAX_RE_COUNT)" for k
    by (auto simp add: bit_push_bit_iff bit_1_iff MAX_RE_COUNT_def simp del: push_bit_of_1)
  have z: "a \<noteq> (Matched OR DeadFlag) \<and> a \<noteq> DeadFlag \<longrightarrow> RemapAction a = 0"
    by (simp add: RemapAction_def)
  have t: "j < built_patterns \<longrightarrow>
      bit (RemapAction (Matched OR DeadFlag)) j \<and> bit (RemapAction DeadFlag) (MAX_RE_COUNT + j)"
    unfolding m d b by (simp add: built_patterns_def)
  from m d b [of i] z t show ?thesis
    by (simp only: bit_1_iff)
qed

text \<open>
  The theorem at pattern 0, the pattern of a built scanner, and at the tags \<open>Matched\<close>
  and \<open>FinalFlag\<close>, which map to zero.
\<close>

theorem RemapAction_cases_witness:
  "bit (RemapAction (Matched OR DeadFlag)) 0 \<and> bit (RemapAction DeadFlag) (MAX_RE_COUNT + 0)
   \<and> RemapAction Matched = 0 \<and> RemapAction FinalFlag = 0 \<and> RemapAction 3 = 1
   \<and> RemapAction 1 = 65536"
proof -
  have p: "(0::nat) < built_patterns"
    by (simp add: built_patterns_def)
  from RemapAction_cases [of 0 Matched 0] RemapAction_cases [of 0 FinalFlag 0] p
  show ?thesis
    by (simp add: Matched_def DeadFlag_def FinalFlag_def MAX_RE_COUNT_def)
qed

subsection \<open>What the mask records\<close>

text \<open>
  Claim C5, as the code has it. After \<^verbatim>\<open>Initialize\<close> and any sequence of
  \<^verbatim>\<open>Next\<close> and \<^verbatim>\<open>TakeAction\<close> steps, for every \<open>i < MAX_RE_COUNT\<close>: if
  \<open>current[i]\<close> is not zero then bit \<open>MAX_RE_COUNT + i\<close> of \<^verbatim>\<open>m_updatedMask\<close>
  (the bit the reset gate consults for pattern \<open>i\<close>) is set. For
  \<open>i < OPTIMAL_RE_COUNT\<close> and fewer than \<open>2^32\<close> \<^verbatim>\<open>TakeAction\<close> steps (so that
  no 32-bit counter has wrapped) the bit is set exactly when \<open>current[i] > 0\<close>.
\<close>

theorem updatedMask_tracks_current:
  assumes "i < MAX_RE_COUNT"
  shows "(m_current (run_steps sc steps) ! i \<noteq> 0 \<longrightarrow>
            bit (m_updatedMask (run_steps sc steps)) (MAX_RE_COUNT + i))
       \<and> (action_count steps < 2 ^ 32 \<and> i < OPTIMAL_RE_COUNT \<longrightarrow>
            bit (m_updatedMask (run_steps sc steps)) (MAX_RE_COUNT + i)
              = (0 < m_current (run_steps sc steps) ! i))"
proof -
  from run_steps_invariant [of sc steps] assms
  have g: "m_current (run_steps sc steps) ! i \<noteq> 0 \<longrightarrow>
      bit (m_updatedMask (run_steps sc steps)) (MAX_RE_COUNT + i)"
    by (simp add: gate_sound_def)
  with run_steps_exact [of steps i sc] show ?thesis
    by (auto simp: word_greater_zero_iff)
qed

text \<open>
  The theorem for pattern 0 after an \<open>a\<close> (bit set, counter positive) and after the
  \<open>b\<close> that follows (bit cleared).
\<close>

theorem updatedMask_tracks_current_witness:
  "bit (m_updatedMask (run_steps demo_scanner [StepNext 97, StepTakeAction 1])) (MAX_RE_COUNT + 0)
   \<and> 0 < m_current (run_steps demo_scanner [StepNext 97, StepTakeAction 1]) ! 0
   \<and> \<not> bit (m_updatedMask (run_steps demo_scanner
         [StepNext 97, StepTakeAction 1, StepNext 98, StepTakeAction 65536])) (MAX_RE_COUNT + 0)"
proof -
  let ?xs = "[StepNext 97, StepTakeAction 1]"
  let ?ys = "[StepNext 97, StepTakeAction 1, StepNext 98, StepTakeAction 65536]"
  have i: "(0::nat) < MAX_RE_COUNT" "(0::nat) < OPTIMAL_RE_COUNT"
    by (simp_all add: MAX_RE_COUNT_def OPTIMAL_RE_COUNT_def)
  have k: "action_count ?xs < 2 ^ 32" "action_count ?ys < 2 ^ 32"
    by simp_all
  have v: "m_current (run_steps demo_scanner ?xs) ! 0 = 1"
    "m_current (run_steps demo_scanner ?ys) ! 0 = 0"
    by code_simp+
  from updatedMask_tracks_current [OF i(1), of demo_scanner ?xs]
    updatedMask_tracks_current [OF i(1), of demo_scanner ?ys] i(2) k v
  show ?thesis
    by simp
qed

text \<open>
  Index 4 is not served by \<^verbatim>\<open>TakeAction\<close>: the action word with bit 4 sets bit
  \<open>MAX_RE_COUNT + 4\<close> of the mask and leaves \<open>current[4]\<close> at zero.
\<close>

theorem updatedMask_tracks_current_counterexample:
  "4 < MAX_RE_COUNT
   \<and> bit (m_updatedMask (run_steps demo_scanner [StepTakeAction 16])) (MAX_RE_COUNT + 4)
   \<and> m_current (run_steps demo_scanner [StepTakeAction 16]) ! 4 = 0"
  by code_simp

subsection \<open>The gate is invisible\<close>

text \<open>
  Claim C6. For every sequence of steps from \<^verbatim>\<open>Initialize\<close>, the arrays
  \<open>current[]\<close> and \<open>total[]\<close> and every \<^verbatim>\<open>Result(i)\<close> are the same as in the
  variant that applies every reset bit with no gate.
\<close>

theorem gate_is_pure_optimization:
  "m_current (run_steps sc steps) = m_current (run_steps_ungated sc steps)
   \<and> m_total (run_steps sc steps) = m_total (run_steps_ungated sc steps)
   \<and> Result (run_steps sc steps) i = Result (run_steps_ungated sc steps) i"
  using run_steps_ungated_eq [of sc steps] by (simp add: Result_def)

text \<open>
  The theorem on a reset with nothing to commit, an increment, and an increment with a
  reset in the same action word.
\<close>

theorem gate_is_pure_optimization_witness:
  "m_current (run_steps_ungated demo_scanner [StepTakeAction 65536, StepTakeAction 1, StepTakeAction 65537])
     = [0, 0, 0, 0, 0, 0, 0, 0, 0, 0, 0, 0, 0, 0, 0, 0]
   \<and> m_total (run_steps_ungated demo_scanner [StepTakeAction 65536, StepTakeAction 1, StepTakeAction 65537])
     = [2, 0, 0, 0, 0, 0, 0, 0, 0, 0, 0, 0, 0, 0, 0, 0]
   \<and> Result (run_steps_ungated demo_scanner [StepTakeAction 65536, StepTakeAction 1, StepTakeAction 65537]) 0 = 2"
proof -
  let ?xs = "[StepTakeAction 65536, StepTakeAction 1, StepTakeAction 65537]"
  have v: "m_current (run_steps demo_scanner ?xs) = [0, 0, 0, 0, 0, 0, 0, 0, 0, 0, 0, 0, 0, 0, 0, 0]"
    "m_total (run_steps demo_scanner ?xs) = [2, 0, 0, 0, 0, 0, 0, 0, 0, 0, 0, 0, 0, 0, 0, 0]"
    "Result (run_steps demo_scanner ?xs) 0 = 2"
    by code_simp+
  from gate_is_pure_optimization [of demo_scanner ?xs 0] v show ?thesis
    by simp
qed

subsection \<open>The reported count does not go down\<close>

text \<open>
  Claim C7, as the code has it. Along a run from \<^verbatim>\<open>Initialize\<close> with fewer than
  \<open>2^32\<close> \<^verbatim>\<open>TakeAction\<close> steps in all, \<^verbatim>\<open>Result(i)\<close> after a prefix is at
  most \<^verbatim>\<open>Result(i)\<close> after the whole run, for every \<open>i < MAX_RE_COUNT\<close>.
\<close>

theorem Result_nondecreasing:
  assumes "action_count (steps @ rest) < 2 ^ 32" and "i < MAX_RE_COUNT"
  shows "Result (run_steps sc steps) i \<le> Result (run_steps sc (steps @ rest)) i"
  using assms(1)
proof (induction rest rule: rev_induct)
  case Nil
  show ?case by simp
next
  case (snoc x rest)
  from snoc have ih: "Result (run_steps sc steps) i \<le> Result (run_steps sc (steps @ rest)) i"
    by simp
  have wf: "wf_State (run_steps sc (steps @ rest))"
    using run_steps_invariant by simp
  have "Result (run_steps sc (steps @ rest)) i
      \<le> Result (apply_step sc (run_steps sc (steps @ rest)) x) i"
  proof (cases x)
    case (StepNext c)
    then show ?thesis by (simp add: Result_def)
  next
    case (StepTakeAction a)
    with snoc.prems have "action_count (steps @ rest) < 4294967295"
      by simp
    with run_steps_bounded [OF assms(2), of sc "steps @ rest"]
    have "unat (m_current (run_steps sc (steps @ rest)) ! i) < 4294967295"
      by simp
    from TakeAction_Result_mono [OF wf assms(2) this] StepTakeAction show ?thesis
      by simp
  qed
  with ih have "Result (run_steps sc steps) i
      \<le> Result (apply_step sc (run_steps sc (steps @ rest)) x) i"
    by (rule order_trans)
  then show ?case
    by (simp only: append_assoc [symmetric] run_steps_snoc)
qed

text \<open>
  The theorem for pattern 0: after an \<open>a\<close>, and after the \<open>b\<close> that follows it.
\<close>

theorem Result_nondecreasing_witness:
  "Result (run_steps demo_scanner [StepNext 97, StepTakeAction 1]) 0
     \<le> Result (run_steps demo_scanner
          [StepNext 97, StepTakeAction 1, StepNext 98, StepTakeAction 65536]) 0"
proof -
  have k: "action_count ([StepNext 97, StepTakeAction 1] @ [StepNext 98, StepTakeAction 65536]) < 2 ^ 32"
    by simp
  have i: "(0::nat) < MAX_RE_COUNT"
    by (simp add: MAX_RE_COUNT_def)
  from Result_nondecreasing [OF k i, of demo_scanner] show ?thesis
    by simp
qed

text \<open>
  The counters are 32-bit: after \<open>2^32 - 1\<close> increments of pattern 0 with no reset in
  between, \<^verbatim>\<open>Result(0)\<close> is \<open>2^32 - 1\<close>, and one more increment wraps
  \<open>current[0]\<close> to zero, so \<^verbatim>\<open>Result(0)\<close> drops to zero.
\<close>

theorem Result_nondecreasing_counterexample:
  "Result (run_steps demo_scanner (replicate 4294967295 (StepTakeAction 1))) 0 = 4294967295
   \<and> Result (run_steps demo_scanner (replicate 4294967295 (StepTakeAction 1) @ [StepTakeAction 1])) 0 = 0"
proof -
  have r: "replicate 4294967295 (StepTakeAction 1) @ [StepTakeAction 1]
      = replicate (Suc 4294967295) (StepTakeAction 1)"
    by (simp only: replicate_append_same replicate.simps)
  have z: "(of_nat (Suc 4294967295) :: ui32) = 0"
    by simp
  have m: "(of_nat 4294967295 :: ui32) = 4294967295"
    by simp
  from run_increments [of demo_scanner 4294967295] run_increments [of demo_scanner "Suc 4294967295"]
  show ?thesis
    unfolding r Result_def by (simp only: z m ymax_def) simp
qed

subsection \<open>No acceptance, no early stop\<close>

text \<open>
  Claim C8. \<^verbatim>\<open>Final\<close>, \<^verbatim>\<open>Dead\<close> and \<^verbatim>\<open>CanStop\<close> are false of every
  scanner and every state.
\<close>

theorem never_Final: "\<not> Final sc s \<and> \<not> Dead sc s \<and> \<not> CanStop sc s"
  by (simp add: Final_def Dead_def CanStop_def)

text \<open>
  The theorem at the initial state and after one byte.
\<close>

theorem never_Final_witness:
  "\<not> Final demo_scanner (run_steps demo_scanner [StepNext 97, StepTakeAction 1])
   \<and> \<not> Dead demo_scanner (Initialize demo_scanner)
   \<and> \<not> CanStop demo_scanner (Initialize demo_scanner)"
  using never_Final [of demo_scanner "run_steps demo_scanner [StepNext 97, StepTakeAction 1]"]
    never_Final [of demo_scanner "Initialize demo_scanner"]
  by simp

subsection \<open>A product that is too large\<close>

text \<open>
  Claim C9. If the limit is positive and more than \<open>maxSize\<close> distinct product states
  can be reached, \<^verbatim>\<open>Glue\<close> returns, and what it returns is a scanner for which
  \<^verbatim>\<open>Empty\<close> holds.
\<close>

theorem Glue_too_large_returns_empty:
  assumes "0 < maxSize" and "distinct S" and "set S \<subseteq> product_reachable a b"
    and "maxSize < length S"
  shows "\<exists>g. Glue a b maxSize = Some g \<and> Empty g"
proof -
  from assms(3) have S: "set S \<subseteq> {q. ((initial a, initial b), q)
      \<in> {(p, q). q \<in> set (glue_succs a b p)}\<^sup>*}"
    by (simp add: product_reachable_def)
  have "glue_loop maxSize (glue_succs a b) [(initial a, initial b)] [(initial a, initial b)]
      = Some TooLarge"
    using assms(1) by (intro glue_loop_too_large [OF assms(1,2) S assms(4)]) simp_all
  then show ?thesis
    by (simp add: Glue_def Empty_def empty_scanner_def)
qed

text \<open>
  The theorem for the small scanner glued with itself under the limit 1: the product has
  two reachable states.
\<close>

theorem Glue_too_large_returns_empty_witness:
  "Glue demo_scanner demo_scanner 1 \<noteq> None \<and> Empty (the (Glue demo_scanner demo_scanner 1))"
proof -
  have one: "(0::nat) < 1" by simp
  have d: "distinct [(4096, 4096), (4120, 4120 :: InternalState) :: PState]"
    by simp
  have s: "(4120, 4120) \<in> set (glue_succs demo_scanner demo_scanner (4096, 4096))"
    by code_simp
  have i: "initial demo_scanner = 4096"
    by (simp add: demo_scanner_def)
  from s have "((4096, 4096), (4120, 4120))
      \<in> {(p, q). q \<in> set (glue_succs demo_scanner demo_scanner p)}\<^sup>*"
    by auto
  then have r: "set [(4096, 4096), (4120, 4120)] \<subseteq> product_reachable demo_scanner demo_scanner"
    by (simp add: product_reachable_def i)
  have l: "1 < length [(4096, 4096), (4120, 4120 :: InternalState) :: PState]"
    by simp
  from Glue_too_large_returns_empty [OF one d r l] show ?thesis
    by auto
qed

lemma Glue_demo_unlimited:
  "Glue demo_scanner demo_scanner 0 =
     Some \<lparr>g_states = [(4096, 4096), (4120, 4120)], g_letters = [0, 97, 98],
       g_next = [(0, 0, 0), (0, 97, 1), (0, 98, 0), (1, 0, 1), (1, 97, 1), (1, 98, 0)]\<rparr>"
  by code_simp

subsection \<open>Who writes which field\<close>

text \<open>
  Claim C10, as the code has it. \<^verbatim>\<open>Next(s, c)\<close> leaves \<open>current[]\<close>,
  \<open>total[]\<close> and \<^verbatim>\<open>m_updatedMask\<close> as they were; \<^verbatim>\<open>TakeAction(s, a)\<close> leaves
  \<^verbatim>\<open>m_state\<close> as it was; and \<^verbatim>\<open>Next(current, n, c)\<close>, called with two
  different objects, leaves \<open>current\<close> as it was, makes \<open>n\<close> the state that
  \<^verbatim>\<open>Next(current, c)\<close> would have produced, and touches no other object.
\<close>

theorem Next_TakeAction_frame:
  "m_current (fst (Next sc s c)) = m_current s
   \<and> m_total (fst (Next sc s c)) = m_total s
   \<and> m_updatedMask (fst (Next sc s c)) = m_updatedMask s
   \<and> m_state (TakeAction s a) = m_state s
   \<and> (current \<noteq> n \<longrightarrow>
        fst (Next3 sc h current n c) current = h current
      \<and> fst (Next3 sc h current n c) n = fst (Next sc (h current) c)
      \<and> snd (Next3 sc h current n c) = snd (Next sc (h current) c))
   \<and> (p \<noteq> n \<longrightarrow> fst (Next3 sc h current n c) p = h p)"
  by (simp add: Next3_def Let_def)

text \<open>
  The theorem on a store whose objects are all initial states, with \<open>current\<close> at
  address 0 and \<open>n\<close> at address 1.
\<close>

theorem Next_TakeAction_frame_witness:
  "fst (Next3 demo_scanner demo_store 0 1 97) 0 = demo_store 0
   \<and> m_state (fst (Next3 demo_scanner demo_store 0 1 97) 1) = 4120
   \<and> snd (Next3 demo_scanner demo_store 0 1 97) = 1
   \<and> fst (Next3 demo_scanner demo_store 0 1 97) 2 = demo_store 2"
proof -
  have d: "(0::nat) \<noteq> 1" "(2::nat) \<noteq> 1"
    by simp_all
  have v: "m_state (fst (Next demo_scanner (demo_store 0) 97)) = 4120"
    "snd (Next demo_scanner (demo_store 0) 97) = 1"
    by code_simp+
  from Next_TakeAction_frame [of demo_scanner "demo_store 0" 97 1 0 1 demo_store 2] d v
  show ?thesis
    by simp
qed

text \<open>
  Called with the same object for both arguments, the assignment \<open>n = current\<close> does
  nothing and the two-argument \<^verbatim>\<open>Next\<close> then moves that object: its
  \<^verbatim>\<open>m_state\<close> goes from 4096 to 4120.
\<close>

theorem Next_TakeAction_frame_counterexample:
  "m_state (demo_store 0) = 4096
   \<and> m_state (fst (Next3 demo_scanner demo_store 0 0 97) 0) = 4120"
  by code_simp

end
